theory Spec2Isabelle
  imports Complex_Main
begin

section \<open>Strings\<close>

text \<open>
  JavaScript strings are modelled as HOL strings. The model covers ASCII text: the
  white space of \<^verbatim>\<open>\s\<close> and \<^verbatim>\<open>trim\<close> is the ASCII white space (tab, line feed,
  vertical tab, form feed, carriage return, space) and \<^verbatim>\<open>toLowerCase\<close> maps
  \<^verbatim>\<open>A-Z\<close> to \<^verbatim>\<open>a-z\<close> and leaves every other character alone.
\<close>

definition is_space :: "char \<Rightarrow> bool" where
  "is_space c = (c = CHR '' '' \<or> c = CHR 0x09 \<or> c = CHR 0x0A \<or> c = CHR 0x0B
                 \<or> c = CHR 0x0C \<or> c = CHR 0x0D)"

definition is_upper :: "char \<Rightarrow> bool" where
  "is_upper c = (65 \<le> (of_char c :: nat) \<and> (of_char c :: nat) \<le> 90)"

definition is_lower :: "char \<Rightarrow> bool" where
  "is_lower c = (97 \<le> (of_char c :: nat) \<and> (of_char c :: nat) \<le> 122)"

definition is_letter :: "char \<Rightarrow> bool" where
  "is_letter c = (is_upper c \<or> is_lower c)"

definition toUpperCase_char :: "char \<Rightarrow> char" where
  "toUpperCase_char c = (if is_lower c then char_of ((of_char c :: nat) - 32) else c)"

definition toLowerCase_char :: "char \<Rightarrow> char" where
  "toLowerCase_char c = (if is_upper c then char_of ((of_char c :: nat) + 32) else c)"

definition toLowerCase :: "string \<Rightarrow> string" where
  "toLowerCase s = map toLowerCase_char s"

text \<open>\<^verbatim>\<open>String.prototype.trim\<close>: white space removed at both ends.\<close>

definition trim :: "string \<Rightarrow> string" where
  "trim s = rev (dropWhile is_space (rev (dropWhile is_space s)))"

text \<open>\<^verbatim>\<open>hay.includes(needle)\<close>: the needle occurs at some position of the hay.\<close>

fun includes_str :: "string \<Rightarrow> string \<Rightarrow> bool" where
  "includes_str [] needle = (needle = [])"
| "includes_str (c # cs) needle =
     (take (length needle) (c # cs) = needle \<or> includes_str cs needle)"

text \<open>\<^verbatim>\<open>Array.prototype.findIndex\<close>; the result \<^verbatim>\<open>-1\<close> of the source is \<open>None\<close>.\<close>

fun findIndex :: "('a \<Rightarrow> bool) \<Rightarrow> 'a list \<Rightarrow> nat option" where
  "findIndex P [] = None"
| "findIndex P (x # xs) =
     (if P x then Some 0 else (case findIndex P xs of None \<Rightarrow> None | Some k \<Rightarrow> Some (Suc k)))"

text \<open>
  \<^verbatim>\<open>xs[i]\<close> for a number \<open>i\<close>: \<^verbatim>\<open>undefined\<close> (here \<open>None\<close>) outside the array. The
  numbers that reach it are integers; a fractional index or \<^verbatim>\<open>NaN\<close> would read
  \<^verbatim>\<open>undefined\<close> as an index out of range does.
\<close>

definition js_index :: "'a list \<Rightarrow> int \<Rightarrow> 'a option" where
  "js_index xs i = (if 0 \<le> i \<and> i < int (length xs) then Some (xs ! nat i) else None)"

section \<open>Quiz normalization (App.tsx, lines 15-54)\<close>

text \<open>
  \<^verbatim>\<open>type AnyQuiz\<close>; the optional fields are options. The fields carry the prefix
  \<open>raw_\<close> because the record of the result has fields of the same names.
\<close>

record AnyQuiz =
  raw_question :: string
  raw_options :: "string list"
  raw_correctAnswer :: "string option"
  raw_correct :: "string option"
  raw_answer :: "string option"
  raw_correctAnswerIndex :: "int option"

record QuizQuestion =
  question :: string
  options :: "string list"
  correctAnswer :: string

text \<open>
  The match of \<^verbatim>\<open>/^\s*[A-D]\s*(?:[\)\.\:\-]\s*|\-\s*)/i\<close> at the start of a string:
  \<open>Some\<close> of what follows the match, \<open>None\<close> when the pattern does not match. White
  space, the letters and the punctuation are disjoint classes, so the greedy
  \<^verbatim>\<open>\s*\<close> never has to give a character back, and the second alternative matches
  nothing the first does not.
\<close>

definition is_label_letter :: "char \<Rightarrow> bool" where
  "is_label_letter c = (toUpperCase_char c \<in> set ''ABCD'')"

definition is_label_punct :: "char \<Rightarrow> bool" where
  "is_label_punct c = (c \<in> set '').:-'')"

definition label_rest :: "string \<Rightarrow> string option" where
  "label_rest s =
     (case dropWhile is_space s of
        [] \<Rightarrow> None
      | c # t \<Rightarrow>
          if is_label_letter c then
            (case dropWhile is_space t of
               [] \<Rightarrow> None
             | p # u \<Rightarrow> if is_label_punct p then Some (dropWhile is_space u) else None)
          else None)"

definition stripLabel :: "string \<Rightarrow> string" where
  "stripLabel s = trim (case label_rest s of None \<Rightarrow> s | Some r \<Rightarrow> r)"

text \<open>\<^verbatim>\<open>rawAns.match(/^[A-Z]/i)?.[0]\<close>: the first character when it is a letter.\<close>

definition leading_letter :: "string \<Rightarrow> char option" where
  "leading_letter s = (case s of [] \<Rightarrow> None | c # _ \<Rightarrow> if is_letter c then Some c else None)"

text \<open>Step 1: the explicit index, used when it reads a non-empty option.\<close>

definition pick_by_index :: "string list \<Rightarrow> int option \<Rightarrow> string option" where
  "pick_by_index opts ix =
     (case ix of
        None \<Rightarrow> None
      | Some k \<Rightarrow> (case js_index opts k of
                    None \<Rightarrow> None
                  | Some v \<Rightarrow> if v \<noteq> [] then Some v else None))"

text \<open>\<^verbatim>\<open>options[0] ?? ''\<close>.\<close>

definition first_or_empty :: "string list \<Rightarrow> string" where
  "first_or_empty opts = (case js_index opts 0 of Some v \<Rightarrow> v | None \<Rightarrow> [])"

text \<open>Step 2: \<^verbatim>\<open>options[idx] ?? options[0] ?? ''\<close> for the index of the letter.\<close>

definition pick_by_letter :: "string list \<Rightarrow> char \<Rightarrow> string" where
  "pick_by_letter opts letter =
     (let idx = int (of_char (toUpperCase_char letter) :: nat) - 65
      in case js_index opts idx of Some v \<Rightarrow> v | None \<Rightarrow> first_or_empty opts)"

text \<open>Step 3: exact text, then substring, both ignoring case; else the first option.\<close>

definition pick_by_text :: "string list \<Rightarrow> string \<Rightarrow> string" where
  "pick_by_text opts rawAns =
     (let norm = stripLabel rawAns;
          idx = (case findIndex (\<lambda>v. toLowerCase v = toLowerCase norm) opts of
                   None \<Rightarrow> findIndex (\<lambda>v. includes_str (toLowerCase v) (toLowerCase norm)) opts
                 | Some k \<Rightarrow> Some k)
      in case idx of Some k \<Rightarrow> opts ! k | None \<Rightarrow> first_or_empty opts)"

definition rawAns_of :: "AnyQuiz \<Rightarrow> string" where
  "rawAns_of q =
     trim (case raw_correctAnswer q of
             Some a \<Rightarrow> a
           | None \<Rightarrow> (case raw_correct q of
                        Some a \<Rightarrow> a
                      | None \<Rightarrow> (case raw_answer q of Some a \<Rightarrow> a | None \<Rightarrow> [])))"

text \<open>The body of the \<^verbatim>\<open>raw.map\<close> callback.\<close>

definition normalizeQuizItem :: "AnyQuiz \<Rightarrow> QuizQuestion" where
  "normalizeQuizItem q =
     (let opts = map stripLabel (raw_options q);
          rawAns = rawAns_of q;
          pick = (case pick_by_index opts (raw_correctAnswerIndex q) of
                    Some v \<Rightarrow> v
                  | None \<Rightarrow> (case leading_letter rawAns of
                               Some letter \<Rightarrow> pick_by_letter opts letter
                             | None \<Rightarrow> pick_by_text opts rawAns))
      in \<lparr>question = raw_question q, options = opts, correctAnswer = pick\<rparr>)"

definition normalizeQuizData :: "AnyQuiz list \<Rightarrow> QuizQuestion list" where
  "normalizeQuizData raw = map normalizeQuizItem raw"

text \<open>A quiz item that carries a raw answer and no index, as the service sends it.\<close>

definition quiz_item :: "string \<Rightarrow> string list \<Rightarrow> string \<Rightarrow> AnyQuiz" where
  "quiz_item qu opts ans =
     \<lparr>raw_question = qu, raw_options = opts, raw_correctAnswer = Some ans,
      raw_correct = None, raw_answer = None, raw_correctAnswerIndex = None\<rparr>"

section \<open>Spoken-word synchronization (App.tsx, lines 131-197 and 226-406)\<close>

subsection \<open>Pacing profile\<close>

text \<open>
  The rate is a JavaScript number that is only compared with the literals \<^verbatim>\<open>0.6\<close> and
  \<^verbatim>\<open>1.1\<close>; it is modelled as a rational. The buttons of the story screen call
  \<^verbatim>\<open>playSpeak(1)\<close> and \<^verbatim>\<open>playSpeak(0.5)\<close>.
\<close>

definition getMsPerWord :: "rat \<Rightarrow> int" where
  "getMsPerWord speechRate =
     (if speechRate \<le> 6 / 10 then 420 else if speechRate < 11 / 10 then 340 else 150)"

definition PAUSE_MS_SENTENCE :: "rat \<Rightarrow> int" where
  "PAUSE_MS_SENTENCE rate = (if rate \<le> 6 / 10 then 800 else 400)"

definition PAUSE_MS_COMMA :: "rat \<Rightarrow> int" where
  "PAUSE_MS_COMMA rate = (if rate \<le> 6 / 10 then 200 else 100)"

subsection \<open>State\<close>

text \<open>
  Who wrote \<^verbatim>\<open>currentWordIndex\<close>: the interval of the fallback pacing, the boundary
  handler, or the session lifecycle (stop, end, error).
\<close>

datatype writer = Fallback | Boundary | Lifecycle

text \<open>
  The React state and the refs of the component, the two local variables \<^verbatim>\<open>i\<close> and
  \<^verbatim>\<open>remainingPauseMs\<close> of \<^verbatim>\<open>startFallback\<close> that its interval callback closes
  over, and the timers of the session: \<open>highlightTimerRef\<close> tells whether the ref holds
  the interval of the session, \<open>fallbackTimer\<close> whether the 900 ms arbitration timeout
  is pending, \<open>resetTimers\<close> lists the times at which the pending
  \<^verbatim>\<open>setTimeout(() => (stoppedByUserRef.current = false), 120)\<close> callbacks are due, and
  \<open>now\<close> is the clock in milliseconds. \<open>indexWrites\<close> records every call of
  \<^verbatim>\<open>setCurrentWordIndex\<close> with its caller.
\<close>

record playback =
  isSpeaking :: bool
  currentWordIndex :: "nat option"
  error :: "string option"
  stoppedByUserRef :: bool
  highlightTimerRef :: bool
  firstBoundaryHeardRef :: bool
  isSpeakingRef :: bool
  utteranceRef :: bool
  fallbackTimer :: bool
  fb_i :: nat
  remainingPauseMs :: int
  resetTimers :: "nat list"
  now :: nat
  indexWrites :: "(writer \<times> nat option) list"

definition setCurrentWordIndex :: "writer \<Rightarrow> nat option \<Rightarrow> playback \<Rightarrow> playback" where
  "setCurrentWordIndex w v s =
     s\<lparr>currentWordIndex := v, indexWrites := indexWrites s @ [(w, v)]\<rparr>"

definition clearHighlightTimer :: "playback \<Rightarrow> playback" where
  "clearHighlightTimer s = (if highlightTimerRef s then s\<lparr>highlightTimerRef := False\<rparr> else s)"

text \<open>The effect \<^verbatim>\<open>isSpeakingRef.current = isSpeaking\<close> that runs after a render.\<close>

definition syncSpeakingRef :: "playback \<Rightarrow> playback" where
  "syncSpeakingRef s = s\<lparr>isSpeakingRef := isSpeaking s\<rparr>"

subsection \<open>Stop\<close>

text \<open>
  \<^verbatim>\<open>window.speechSynthesis.cancel()\<close> acts on the speech engine; what the engine
  answers, an error or an end callback, is an event of its own. The timeout that resets
  the flag is entered with its due time.
\<close>

definition stopSpeaking :: "playback \<Rightarrow> playback" where
  "stopSpeaking s =
     (let s1 = s\<lparr>stoppedByUserRef := True\<rparr>;
          s2 = clearHighlightTimer s1;
          s3 = s2\<lparr>isSpeaking := False\<rparr>;
          s4 = setCurrentWordIndex Lifecycle None s3;
          s5 = s4\<lparr>error := None, utteranceRef := False\<rparr>
      in s5\<lparr>resetTimers := resetTimers s5 @ [now s5 + 120]\<rparr>)"

text \<open>
  Time passes by \<open>d\<close> milliseconds: every reset callback that is due by then runs and
  leaves the list of pending ones.
\<close>

definition elapse :: "nat \<Rightarrow> playback \<Rightarrow> playback" where
  "elapse d s =
     (let t = now s + d;
          due = filter (\<lambda>x. x \<le> t) (resetTimers s);
          s1 = (if due = [] then s else s\<lparr>stoppedByUserRef := False\<rparr>)
      in s1\<lparr>resetTimers := filter (\<lambda>x. \<not> x \<le> t) (resetTimers s), now := t\<rparr>)"

subsection \<open>Fallback pacing\<close>

definition startFallback :: "playback \<Rightarrow> playback" where
  "startFallback s =
     (let s1 = s\<lparr>fb_i := 0\<rparr>;
          s2 = setCurrentWordIndex Fallback (Some 0) s1;
          s3 = s2\<lparr>remainingPauseMs := 0\<rparr>
      in s3\<lparr>highlightTimerRef := True\<rparr>)"

text \<open>
  The pause that follows a word: \<^verbatim>\<open>if (previousWord)\<close> skips an empty word, the two
  tests look at its last character, and no punctuation leaves the budget as it is.
\<close>

definition pause_after :: "rat \<Rightarrow> string \<Rightarrow> int \<Rightarrow> int" where
  "pause_after rate previousWord pause =
     (if previousWord = [] then pause
      else if last previousWord \<in> set ''.!?'' then PAUSE_MS_SENTENCE rate
      else if last previousWord \<in> set '',:;'' then PAUSE_MS_COMMA rate
      else pause)"

text \<open>One run of the callback of \<^verbatim>\<open>setInterval\<close>.\<close>

definition tick :: "string list \<Rightarrow> rat \<Rightarrow> playback \<Rightarrow> playback" where
  "tick words rate s =
     (if \<not> isSpeakingRef s then clearHighlightTimer s
      else
        let msPerWord = getMsPerWord rate in
        if remainingPauseMs s > 0 \<and> \<not> remainingPauseMs s - msPerWord \<le> 0
        then s\<lparr>remainingPauseMs := remainingPauseMs s - msPerWord\<rparr>
        else
          let s1 = (if remainingPauseMs s > 0 then s\<lparr>remainingPauseMs := 0\<rparr> else s);
              i = fb_i s1 + 1;
              s2 = s1\<lparr>fb_i := i\<rparr>
          in if i \<ge> length words
             then setCurrentWordIndex Fallback None
                    ((clearHighlightTimer s2)\<lparr>isSpeaking := False\<rparr>)
             else
               let s3 = setCurrentWordIndex Fallback (Some i) s2
               in s3\<lparr>remainingPauseMs :=
                       pause_after rate (words ! (i - 1)) (remainingPauseMs s3)\<rparr>)"

text \<open>
  The interval runs its callback until it is cleared. The loop ends: a tick either
  clears the interval, or moves to the next word, or spends some of a positive pause.
\<close>

function run_fallback :: "string list \<Rightarrow> rat \<Rightarrow> playback \<Rightarrow> playback" where
  "run_fallback words rate s =
     (if highlightTimerRef s then run_fallback words rate (tick words rate s) else s)"
  by pat_completeness auto
termination
proof (relation "measures [\<lambda>(ws, r, s). if highlightTimerRef s then 1 else 0,
                           \<lambda>(ws, r, s). length ws - fb_i s,
                           \<lambda>(ws, r, s). nat (remainingPauseMs s)]")
  show "wf (measures [\<lambda>(ws, r, s). if highlightTimerRef s then 1 else 0,
                      \<lambda>(ws, r, s). length ws - fb_i s,
                      \<lambda>(ws, r, s). nat (remainingPauseMs s)])"
    by simp
next
  fix words :: "string list" and rate :: rat and s :: playback
  assume "highlightTimerRef s"
  then show "((words, rate, tick words rate s), (words, rate, s))
          \<in> measures [\<lambda>(ws, r, s). if highlightTimerRef s then 1 else 0,
                      \<lambda>(ws, r, s). length ws - fb_i s,
                      \<lambda>(ws, r, s). nat (remainingPauseMs s)]"
    by (auto simp: tick_def Let_def clearHighlightTimer_def setCurrentWordIndex_def
                   getMsPerWord_def split: if_splits)
qed

subsection \<open>Callbacks of the utterance and the arbitration timeout\<close>

text \<open>
  The loop of \<^verbatim>\<open>onboundary\<close>: the index of the first word whose cumulative length,
  one more for each word, exceeds the offset; \<open>None\<close> when the loop ends without a
  \<^verbatim>\<open>break\<close>, and then the index is not written.
\<close>

fun boundary_scan :: "string list \<Rightarrow> nat \<Rightarrow> nat \<Rightarrow> nat \<Rightarrow> nat option" where
  "boundary_scan [] i count charIndex = None"
| "boundary_scan (w # ws) i count charIndex =
     (let count' = count + (length w + 1)
      in if count' > charIndex then Some i else boundary_scan ws (Suc i) count' charIndex)"

definition boundary_index :: "string list \<Rightarrow> nat \<Rightarrow> nat option" where
  "boundary_index words charIndex = boundary_scan words 0 0 charIndex"

definition onboundary :: "string list \<Rightarrow> nat \<Rightarrow> playback \<Rightarrow> playback" where
  "onboundary words charIndex s =
     (let s1 = (if \<not> firstBoundaryHeardRef s
                then clearHighlightTimer (s\<lparr>firstBoundaryHeardRef := True, fallbackTimer := False\<rparr>)
                else s)
      in case boundary_index words charIndex of
           Some i \<Rightarrow> setCurrentWordIndex Boundary (Some i) s1
         | None \<Rightarrow> s1)"

definition onend :: "playback \<Rightarrow> playback" where
  "onend s =
     setCurrentWordIndex Lifecycle None
       ((clearHighlightTimer (s\<lparr>fallbackTimer := False\<rparr>))\<lparr>isSpeaking := False\<rparr>)"

definition onerror :: "string \<Rightarrow> playback \<Rightarrow> playback" where
  "onerror err s =
     (let s1 = clearHighlightTimer (s\<lparr>fallbackTimer := False\<rparr>)
      in if stoppedByUserRef s1 \<or> err = ''interrupted'' \<or> err = ''canceled''
         then setCurrentWordIndex Lifecycle None (s1\<lparr>isSpeaking := False\<rparr>)
         else setCurrentWordIndex Lifecycle None
                (s1\<lparr>error := Some ''Could not play audio. Your browser may not support this feature.'',
                    isSpeaking := False\<rparr>))"

text \<open>The callback of the arbitration timeout, 900 ms after \<^verbatim>\<open>playSpeak\<close>.\<close>

definition fallback_deadline :: "playback \<Rightarrow> playback" where
  "fallback_deadline s = (if \<not> firstBoundaryHeardRef s then startFallback s else s)"

text \<open>
  What can happen during one session, after \<^verbatim>\<open>playSpeak\<close> has set it up: the timers
  run their callbacks only while they are armed, and the timeout runs once.
\<close>

datatype event =
    Tick
  | Deadline
  | BoundaryEv nat
  | EndEv
  | ErrorEv string
  | StopEv
  | EffectEv
  | ElapseEv nat

fun fire :: "string list \<Rightarrow> rat \<Rightarrow> event \<Rightarrow> playback \<Rightarrow> playback" where
  "fire words rate Tick s = (if highlightTimerRef s then tick words rate s else s)"
| "fire words rate Deadline s =
     (if fallbackTimer s then fallback_deadline (s\<lparr>fallbackTimer := False\<rparr>) else s)"
| "fire words rate (BoundaryEv c) s = onboundary words c s"
| "fire words rate EndEv s = onend s"
| "fire words rate (ErrorEv e) s = onerror e s"
| "fire words rate StopEv s = stopSpeaking s"
| "fire words rate EffectEv s = syncSpeakingRef s"
| "fire words rate (ElapseEv d) s = elapse d s"

fun run_events :: "string list \<Rightarrow> rat \<Rightarrow> event list \<Rightarrow> playback \<Rightarrow> playback" where
  "run_events words rate [] s = s"
| "run_events words rate (e # es) s = run_events words rate es (fire words rate e s)"

definition fallback_writes :: "playback \<Rightarrow> (writer \<times> nat option) list" where
  "fallback_writes s = filter (\<lambda>(w, v). w = Fallback) (indexWrites s)"

subsection \<open>Play\<close>



section \<open>Results screen (App.tsx, lines 590-594)\<close>

text \<open>
  \<^verbatim>\<open>quiz.reduce((acc, question, index) => acc + (question.correctAnswer === userAnswers[index] ? 1 : 0), 0)\<close>:
  an index beyond the answers reads \<^verbatim>\<open>undefined\<close>, which equals no string.
\<close>

definition score_of :: "QuizQuestion list \<Rightarrow> string list \<Rightarrow> nat" where
  "score_of quiz userAnswers =
     foldl (\<lambda>acc (question, index).
              acc + (if js_index userAnswers (int index) = Some (correctAnswer question)
                     then 1 else 0))
           0 (zip quiz [0..<length quiz])"

text \<open>
  \<^verbatim>\<open>Math.round((score / quiz.length) * 100)\<close> is computed on IEEE 754 doubles. The
  score and the length are small integers, which doubles represent exactly; the
  quotient and the product are each rounded to the nearest double, ties to the even
  significand. \<open>to_double\<close> is that rounding for a non-negative rational in the range of
  the normal doubles, where these quotients and products lie: \<open>ilog2 x\<close> is the exponent
  \<open>e\<close> with \<open>2 ^ e \<le> x < 2 ^ (e + 1)\<close>, found from the bit lengths of numerator and
  denominator, and the significand has 53 bits.
\<close>

function bitlen :: "int \<Rightarrow> nat" where
  "bitlen n = (if n \<le> 0 then 0 else Suc (bitlen (n div 2)))"
  by pat_completeness auto
termination
  by (relation "measure nat") auto

declare bitlen.simps [simp del]

definition pow2 :: "int \<Rightarrow> rat" where
  "pow2 e = 2 powi e"

definition ilog2 :: "rat \<Rightarrow> int" where
  "ilog2 x = (let (a, b) = quotient_of x;
                  e = int (bitlen a) - int (bitlen b)
              in if pow2 e \<le> x then e else e - 1)"

definition to_double :: "rat \<Rightarrow> rat" where
  "to_double x =
     (if x = 0 then 0
      else let e = ilog2 x;
               q = pow2 (e - 52);
               m = x / q;
               f = \<lfloor>m\<rfloor>;
               r = m - of_int f;
               k = (if r < 1 / 2 then f else if 1 / 2 < r then f + 1
                    else if even f then f else f + 1)
           in of_int k * q)"

text \<open>\<^verbatim>\<open>Math.round\<close>: the nearest integer, a tie going up.\<close>

definition Math_round :: "rat \<Rightarrow> int" where
  "Math_round x = \<lfloor>x + 1 / 2\<rfloor>"

text \<open>
  The percentage of the results screen for a score and a number of questions. An empty
  quiz gives \<^verbatim>\<open>0 / 0\<close>, which is \<^verbatim>\<open>NaN\<close>, and \<^verbatim>\<open>Math.round(NaN)\<close> is \<^verbatim>\<open>NaN\<close>: \<open>None\<close>.
\<close>

definition percentage :: "nat \<Rightarrow> nat \<Rightarrow> int option" where
  "percentage score len =
     (if len = 0 then None
      else Some (Math_round (to_double (to_double (of_nat score / of_nat len) * 100))))"

text \<open>Quizzes for the properties: a yes-no question, and three questions with the answers A, B, C.\<close>

definition yes_no :: QuizQuestion where
  "yes_no = \<lparr>question = ''Is it so?'', options = [''Yes'', ''No''], correctAnswer = ''Yes''\<rparr>"

definition abc_quiz :: "QuizQuestion list" where
  "abc_quiz = map (\<lambda>a. \<lparr>question = ''Which letter?'', options = [''A'', ''B'', ''C'', ''X''],
                          correctAnswer = a\<rparr>) [''A'', ''B'', ''C'']"

section \<open>Vocabulary of the properties\<close>

text \<open>
  A word that ends a sentence, \<^verbatim>\<open>/[.!?]$/\<close>, and one that ends a clause,
  \<^verbatim>\<open>/[,:;]$/\<close>, as \<open>pause_after\<close> tests them.
\<close>

definition sentence_end :: "string \<Rightarrow> bool" where
  "sentence_end w = (w \<noteq> [] \<and> last w \<in> set ''.!?'')"

definition clause_end :: "string \<Rightarrow> bool" where
  "clause_end w = (w \<noteq> [] \<and> last w \<in> set '',:;'')"

text \<open>The count of \<^verbatim>\<open>onboundary\<close> after the first \<open>k\<close> words.\<close>

definition cumulative :: "string list \<Rightarrow> nat \<Rightarrow> nat" where
  "cumulative words k = sum_list (map (\<lambda>w. length w + 1) (take k words))"

text \<open>
  The component as it is mounted, and a session in which the utterance has been handed
  to the speech engine, the arbitration timeout is pending and the effect has copied
  \<^verbatim>\<open>isSpeaking\<close> into its ref.
\<close>

definition initial :: playback where
  "initial = \<lparr>isSpeaking = False, currentWordIndex = None, error = None,
     stoppedByUserRef = False, highlightTimerRef = False, firstBoundaryHeardRef = False,
     isSpeakingRef = False, utteranceRef = False, fallbackTimer = False, fb_i = 0,
     remainingPauseMs = 0, resetTimers = [], now = 0, indexWrites = []\<rparr>"

definition speaking :: playback where
  "speaking = initial\<lparr>isSpeaking := True, isSpeakingRef := True, utteranceRef := True,
     fallbackTimer := True\<rparr>"


text \<open>Neither the arbitration timeout nor the pacing interval is armed.\<close>

definition timers_off :: "playback \<Rightarrow> bool" where
  "timers_off s = (\<not> fallbackTimer s \<and> \<not> highlightTimerRef s)"

text \<open>
  A normalized question handed to the normalization again: its three fields, no
  alternative answer field and no index.
\<close>

definition as_raw :: "QuizQuestion \<Rightarrow> AnyQuiz" where
  "as_raw n = \<lparr>raw_question = question n, raw_options = options n,
      raw_correctAnswer = Some (correctAnswer n), raw_correct = None, raw_answer = None,
      raw_correctAnswerIndex = None\<rparr>"

text \<open>A string with no white space at either end.\<close>

definition trimmed :: "string \<Rightarrow> bool" where
  "trimmed s = (s = [] \<or> (\<not> is_space (hd s) \<and> \<not> is_space (last s)))"

text \<open>
  Two quiz items for the properties: options that differ only in the case of a letter,
  with the answer given by index, and options that begin with a digit.
\<close>

definition two_dogs :: AnyQuiz where
  "two_dogs = \<lparr>raw_question = ''Which one is spelled with a capital?'',
     raw_options = [''1 dog'', ''1 Dog'', ''2 cats'', ''3 birds''],
     raw_correctAnswer = None, raw_correct = None, raw_answer = None,
     raw_correctAnswerIndex = Some 1\<rparr>"

definition percent_item :: AnyQuiz where
  "percent_item = quiz_item ''How much?'' [''A) 10 %'', ''B) 25 %'', ''C) 50 %'', ''D) 75 %''] ''25 %''"

section \<open>Properties of the quiz normalization\<close>

lemma js_index_mem: "js_index xs i = Some v \<Longrightarrow> v \<in> set xs"
  by (auto simp: js_index_def split: if_splits)

lemma js_index_None_iff: "js_index xs i = None \<longleftrightarrow> i < 0 \<or> int (length xs) \<le> i"
  by (auto simp: js_index_def)

lemma js_index_Nil: "js_index [] i = None"
  by (auto simp: js_index_def)

lemma first_or_empty_Nil: "first_or_empty [] = []"
  by (simp add: first_or_empty_def js_index_Nil)

lemma first_or_empty_Cons: "first_or_empty (x # xs) = x"
  by (simp add: first_or_empty_def js_index_def)

lemma first_or_empty_mem: "xs \<noteq> [] \<Longrightarrow> first_or_empty xs \<in> set xs"
  by (cases xs) (simp_all add: first_or_empty_Cons)

lemma findIndex_Some:
  "findIndex P xs = Some k \<Longrightarrow> k < length xs \<and> P (xs ! k) \<and> (\<forall>j<k. \<not> P (xs ! j))"
proof (induction xs arbitrary: k)
  case Nil
  then show ?case by simp
next
  case (Cons x xs)
  show ?case
  proof (cases "P x")
    case True
    with Cons.prems show ?thesis by simp
  next
    case False
    with Cons.prems obtain k' where k': "findIndex P xs = Some k'" "k = Suc k'"
      by (auto split: option.splits)
    from Cons.IH [OF k'(1)] False k'(2) show ?thesis
      by (auto simp: nth_Cons split: nat.splits)
  qed
qed

lemma findIndex_None: "findIndex P xs = None \<longleftrightarrow> (\<forall>x\<in>set xs. \<not> P x)"
  by (induction xs) (auto split: option.splits)

lemma pick_by_index_mem: "pick_by_index opts ix = Some v \<Longrightarrow> v \<in> set opts"
  by (auto simp: pick_by_index_def dest: js_index_mem split: option.splits if_splits)

lemma pick_by_index_Nil: "pick_by_index [] ix = None"
  by (simp add: pick_by_index_def js_index_Nil split: option.splits)

lemma pick_by_letter_mem: "opts \<noteq> [] \<Longrightarrow> pick_by_letter opts c \<in> set opts"
  by (auto simp: pick_by_letter_def Let_def first_or_empty_mem dest: js_index_mem
           split: option.splits)

lemma pick_by_letter_Nil: "pick_by_letter [] c = []"
  by (simp add: pick_by_letter_def Let_def js_index_Nil first_or_empty_Nil)

lemma pick_by_text_mem: "opts \<noteq> [] \<Longrightarrow> pick_by_text opts a \<in> set opts"
  by (auto simp: pick_by_text_def Let_def first_or_empty_mem dest: findIndex_Some
           split: option.splits)

lemma pick_by_text_Nil: "pick_by_text [] a = []"
  by (simp add: pick_by_text_def Let_def first_or_empty_Nil)

lemma options_normalizeQuizItem:
  "options (normalizeQuizItem q) = map stripLabel (raw_options q)"
  by (simp add: normalizeQuizItem_def Let_def)

lemma correctAnswer_normalizeQuizItem:
  "correctAnswer (normalizeQuizItem q) =
     (case pick_by_index (map stripLabel (raw_options q)) (raw_correctAnswerIndex q) of
        Some v \<Rightarrow> v
      | None \<Rightarrow> (case leading_letter (rawAns_of q) of
                   Some letter \<Rightarrow> pick_by_letter (map stripLabel (raw_options q)) letter
                 | None \<Rightarrow> pick_by_text (map stripLabel (raw_options q)) (rawAns_of q)))"
  by (simp add: normalizeQuizItem_def Let_def)

text \<open>
  Claim C5. \<open>normalizeQuizData\<close> returns one question for every quiz item, in order,
  and for every quiz item the normalized question has the label-stripped options of the
  item, its \<open>correctAnswer\<close> is among them when there is an option at all, whatever the
  raw answer and the index were, and is the empty string when there are no options.
\<close>

theorem normalize_answer_in_options:
  "length (normalizeQuizData raw) = length raw
   \<and> (\<forall>i < length raw. normalizeQuizData raw ! i = normalizeQuizItem (raw ! i))
   \<and> options (normalizeQuizItem q) = map stripLabel (raw_options q)
   \<and> (options (normalizeQuizItem q) \<noteq> []
        \<longrightarrow> correctAnswer (normalizeQuizItem q) \<in> set (options (normalizeQuizItem q)))
   \<and> (options (normalizeQuizItem q) = [] \<longrightarrow> correctAnswer (normalizeQuizItem q) = [])"
proof -
  let ?opts = "map stripLabel (raw_options q)"
  have "correctAnswer (normalizeQuizItem q) \<in> set ?opts" if ne: "?opts \<noteq> []"
    unfolding correctAnswer_normalizeQuizItem
    using pick_by_letter_mem [OF ne] pick_by_text_mem [OF ne]
    by (auto split: option.splits dest: pick_by_index_mem)
  moreover have "?opts = [] \<Longrightarrow> correctAnswer (normalizeQuizItem q) = []"
    unfolding correctAnswer_normalizeQuizItem
    by (simp add: pick_by_index_Nil pick_by_letter_Nil pick_by_text_Nil split: option.splits)
  ultimately show ?thesis
    by (simp add: options_normalizeQuizItem normalizeQuizData_def)
qed

theorem normalize_answer_in_options_witness:
  "normalizeQuizData [quiz_item ''Capital of the UK?''
              [''A) Paris'', ''B) London'', ''C) Rome'', ''D) Berlin''] ''B'',
              quiz_item ''Empty'' [] ''B'']
     = [\<lparr>question = ''Capital of the UK?'',
          options = [''Paris'', ''London'', ''Rome'', ''Berlin''], correctAnswer = ''London''\<rparr>,
        \<lparr>question = ''Empty'', options = [], correctAnswer = []\<rparr>]
   \<and> ''London'' \<in> set [''Paris'', ''London'', ''Rome'', ''Berlin'']"
proof -
  let ?q1 = "quiz_item ''Capital of the UK?''
              [''A) Paris'', ''B) London'', ''C) Rome'', ''D) Berlin''] ''B''"
  let ?q2 = "quiz_item ''Empty'' [] ''B''"
  have a: "normalizeQuizItem ?q1
     = \<lparr>question = ''Capital of the UK?'',
        options = [''Paris'', ''London'', ''Rome'', ''Berlin''], correctAnswer = ''London''\<rparr>"
    by code_simp
  have b: "normalizeQuizItem ?q2 = \<lparr>question = ''Empty'', options = [], correctAnswer = []\<rparr>"
    by code_simp
  note t = normalize_answer_in_options [of "[?q1, ?q2]" ?q1]
  from t have "length (normalizeQuizData [?q1, ?q2]) = length [?q1, ?q2]"
    by (rule conjunct1)
  then have l: "length (normalizeQuizData [?q1, ?q2]) = 2" by simp
  from t have n: "\<forall>i < length [?q1, ?q2].
      normalizeQuizData [?q1, ?q2] ! i = normalizeQuizItem ([?q1, ?q2] ! i)"
    by blast
  from t have m: "options (normalizeQuizItem ?q1) \<noteq> []
        \<longrightarrow> correctAnswer (normalizeQuizItem ?q1) \<in> set (options (normalizeQuizItem ?q1))"
    by blast
  from n have "normalizeQuizData [?q1, ?q2] ! 0 = normalizeQuizItem ?q1"
      "normalizeQuizData [?q1, ?q2] ! 1 = normalizeQuizItem ?q2"
    by simp_all
  with l have "normalizeQuizData [?q1, ?q2] = [normalizeQuizItem ?q1, normalizeQuizItem ?q2]"
    by (intro nth_equalityI) (simp_all add: nth_Cons split: nat.splits)
  moreover from m have "''London'' \<in> set [''Paris'', ''London'', ''Rome'', ''Berlin'']"
    unfolding a by simp
  ultimately show ?thesis unfolding a b by simp
qed

text \<open>
  Claim C6. For the options Cat, Dog, Bird, Fish, no index and the raw answer
  \<open>dog\<close>, the claim expects \<open>Dog\<close>. The raw answer begins with a letter, so step 2
  reads it as the label \<open>D\<close> and the normalization returns the fourth option,
  \<open>Fish\<close>; the text match of step 3 is not reached.
\<close>

theorem normalize_dog_gives_Fish:
  "correctAnswer (normalizeQuizItem
     (quiz_item ''Which animal barks?'' [''Cat'', ''Dog'', ''Bird'', ''Fish''] ''dog'')) = ''Fish''"
  by code_simp

text \<open>
  Claim C10. When the index step does not apply and the trimmed raw answer begins with
  an ASCII letter, of either case, the answer is the one the letter step picks, so the
  text matching of step 3 plays no part; and when the alphabetical index of that letter
  is not an index of the non-empty options list, the answer is the first option.
\<close>

theorem letter_out_of_range_first_option:
  assumes "pick_by_index (map stripLabel (raw_options q)) (raw_correctAnswerIndex q) = None"
    and "rawAns_of q = c # rest"
    and "is_letter c"
    and "raw_options q \<noteq> []"
    and "int (length (raw_options q)) \<le> int (of_char (toUpperCase_char c) :: nat) - 65"
  shows "correctAnswer (normalizeQuizItem q) = pick_by_letter (options (normalizeQuizItem q)) c
       \<and> correctAnswer (normalizeQuizItem q) = options (normalizeQuizItem q) ! 0"
proof -
  let ?opts = "map stripLabel (raw_options q)"
  have l: "leading_letter (rawAns_of q) = Some c"
    using assms(2,3) by (simp add: leading_letter_def)
  have 1: "correctAnswer (normalizeQuizItem q) = pick_by_letter ?opts c"
    by (simp add: correctAnswer_normalizeQuizItem assms(1) l)
  have "js_index ?opts (int (of_char (toUpperCase_char c) :: nat) - 65) = None"
    using assms(5) by (simp add: js_index_None_iff)
  then have "pick_by_letter ?opts c = first_or_empty ?opts"
    by (simp add: pick_by_letter_def)
  also have "\<dots> = ?opts ! 0"
    using assms(4) by (cases "raw_options q") (simp_all add: first_or_empty_Cons)
  finally show ?thesis using 1 by (simp add: options_normalizeQuizItem)
qed

theorem letter_out_of_range_first_option_witness:
  "correctAnswer (normalizeQuizItem
      (quiz_item ''Which animal has stripes?'' [''Horse'', ''1 Zebra'', ''Bird'', ''Fish''] ''  zebra''))
     = ''Horse''"
proof -
  let ?q = "quiz_item ''Which animal has stripes?'' [''Horse'', ''1 Zebra'', ''Bird'', ''Fish''] ''  zebra''"
  have h1: "pick_by_index (map stripLabel (raw_options ?q)) (raw_correctAnswerIndex ?q) = None"
    by code_simp
  have h2: "rawAns_of ?q = CHR ''z'' # ''ebra''"
    by code_simp
  have h3: "is_letter CHR ''z''"
    by code_simp
  have h4: "raw_options ?q \<noteq> []"
    by code_simp
  have h5: "int (length (raw_options ?q)) \<le> int (of_char (toUpperCase_char CHR ''z'') :: nat) - 65"
    by code_simp
  have o: "options (normalizeQuizItem ?q) ! 0 = ''Horse''"
    by code_simp
  have "correctAnswer (normalizeQuizItem ?q) = options (normalizeQuizItem ?q) ! 0"
    using letter_out_of_range_first_option [OF h1 h2 h3 h4 h5] by (rule conjunct2)
  then show ?thesis by (simp only: o)
qed

subsection \<open>Normalizing twice\<close>

lemma dropWhile_hd: "dropWhile P xs \<noteq> [] \<Longrightarrow> \<not> P (hd (dropWhile P xs))"
  by (metis hd_dropWhile)

lemma last_dropWhile: "dropWhile P xs \<noteq> [] \<Longrightarrow> last (dropWhile P xs) = last xs"
  by (induction xs) (auto split: if_splits)

lemma trimmed_trim: "trimmed (trim s)"
proof -
  let ?t = "dropWhile is_space s"
  let ?u = "dropWhile is_space (rev ?t)"
  show ?thesis
  proof (cases "?u = []")
    case True
    then show ?thesis by (simp add: trimmed_def trim_def)
  next
    case False
    have t: "?t \<noteq> []"
    proof
      assume e: "?t = []"
      have "?u = []" unfolding e by simp
      with False show False by blast
    qed
    have "last (rev ?u) = hd ?u" using False by (simp add: last_rev)
    moreover have "\<not> is_space (hd ?u)" using False by (rule dropWhile_hd)
    moreover have "hd (rev ?u) = last ?u" using False by (simp add: hd_rev)
    moreover have "last ?u = last (rev ?t)" using False by (rule last_dropWhile)
    moreover have "last (rev ?t) = hd ?t" using t by (simp add: last_rev)
    moreover have "\<not> is_space (hd ?t)" using t by (rule dropWhile_hd)
    ultimately show ?thesis by (simp add: trimmed_def trim_def)
  qed
qed

lemma trim_trimmed: "trimmed s \<Longrightarrow> trim s = s"
proof (cases "s = []")
  case True
  then show ?thesis by (simp add: trim_def)
next
  case False
  assume "trimmed s"
  with False have h: "\<not> is_space (hd s)" "\<not> is_space (last s)" by (simp_all add: trimmed_def)
  from False h(1) have 1: "dropWhile is_space s = s" by (cases s) auto
  from False h(2) have "dropWhile is_space (rev s) = rev s"
    by (cases "rev s") (auto simp: hd_rev [symmetric])
  with 1 show ?thesis by (simp add: trim_def)
qed

lemma trimmed_stripLabel: "trimmed (stripLabel s)"
  by (simp add: stripLabel_def trimmed_trim)

lemma is_label_letter_is_letter: "is_label_letter c \<Longrightarrow> is_letter c"
  by (auto simp: is_label_letter_def is_letter_def toUpperCase_char_def is_upper_def split: if_splits)

lemma stripLabel_no_letter:
  assumes "trimmed s" "leading_letter s = None"
  shows "stripLabel s = s"
proof (cases s)
  case Nil
  then show ?thesis by (simp add: stripLabel_def label_rest_def trim_def)
next
  case (Cons c t)
  with assms(1) have "\<not> is_space c" by (simp add: trimmed_def)
  moreover from Cons assms(2) have "\<not> is_letter c" by (simp add: leading_letter_def split: if_splits)
  then have "\<not> is_label_letter c" using is_label_letter_is_letter by blast
  ultimately have "label_rest s = None" using Cons by (simp add: label_rest_def)
  with assms(1) show ?thesis by (simp add: stripLabel_def trim_trimmed)
qed

lemma correctAnswer_cases:
  "correctAnswer (normalizeQuizItem q) \<in> set (options (normalizeQuizItem q))
   \<or> (options (normalizeQuizItem q) = [] \<and> correctAnswer (normalizeQuizItem q) = [])"
proof -
  let ?opts = "map stripLabel (raw_options q)"
  have "correctAnswer (normalizeQuizItem q) \<in> set ?opts" if ne: "?opts \<noteq> []"
    unfolding correctAnswer_normalizeQuizItem
    using pick_by_letter_mem [OF ne] pick_by_text_mem [OF ne]
    by (auto split: option.splits dest: pick_by_index_mem)
  moreover have "?opts = [] \<Longrightarrow> correctAnswer (normalizeQuizItem q) = []"
    unfolding correctAnswer_normalizeQuizItem
    by (simp add: pick_by_index_Nil pick_by_letter_Nil pick_by_text_Nil split: option.splits)
  ultimately show ?thesis unfolding options_normalizeQuizItem by blast
qed

lemma trimmed_correctAnswer: "trimmed (correctAnswer (normalizeQuizItem q))"
  using correctAnswer_cases [of q]
  by (auto simp: options_normalizeQuizItem trimmed_stripLabel) (simp add: trimmed_def)

lemma renormalize_unfold:
  assumes "leading_letter (correctAnswer n) = None" "trimmed (correctAnswer n)"
  shows "correctAnswer (normalizeQuizItem (as_raw n)) =
           pick_by_text (map stripLabel (options n)) (correctAnswer n)"
proof -
  have "rawAns_of (as_raw n) = correctAnswer n"
    using assms(2) by (simp add: rawAns_of_def as_raw_def trim_trimmed)
  moreover have "raw_options (as_raw n) = options n" "raw_correctAnswerIndex (as_raw n) = None"
    by (simp_all add: as_raw_def)
  ultimately show ?thesis
    using assms(1) by (simp add: correctAnswer_normalizeQuizItem pick_by_index_def)
qed

text \<open>
  Claim C7, as amended. When the answer of a normalized question does not begin with an
  ASCII letter, normalizing the question again yields the first of its (again
  label-stripped) options that equals that answer up to the case of letters, and the
  answer itself, the empty string, when there are no options; it is the same answer
  whenever no option differs from it only in case.
\<close>

theorem renormalize_same_up_to_case:
  assumes "leading_letter (correctAnswer (normalizeQuizItem q)) = None"
  shows "options (normalizeQuizItem (as_raw (normalizeQuizItem q)))
           = map stripLabel (options (normalizeQuizItem q))
       \<and> (options (normalizeQuizItem q) \<noteq> [] \<longrightarrow>
            (\<exists>k < length (options (normalizeQuizItem (as_raw (normalizeQuizItem q)))).
               correctAnswer (normalizeQuizItem (as_raw (normalizeQuizItem q)))
                 = options (normalizeQuizItem (as_raw (normalizeQuizItem q))) ! k
               \<and> toLowerCase (options (normalizeQuizItem (as_raw (normalizeQuizItem q))) ! k)
                   = toLowerCase (correctAnswer (normalizeQuizItem q))
               \<and> (\<forall>j < k. toLowerCase (options (normalizeQuizItem (as_raw (normalizeQuizItem q))) ! j)
                             \<noteq> toLowerCase (correctAnswer (normalizeQuizItem q)))))
       \<and> (options (normalizeQuizItem q) = [] \<longrightarrow>
            correctAnswer (normalizeQuizItem (as_raw (normalizeQuizItem q))) = []
            \<and> correctAnswer (normalizeQuizItem q) = [])
       \<and> toLowerCase (correctAnswer (normalizeQuizItem (as_raw (normalizeQuizItem q))))
           = toLowerCase (correctAnswer (normalizeQuizItem q))
       \<and> ((\<forall>v \<in> set (options (normalizeQuizItem (as_raw (normalizeQuizItem q)))).
              toLowerCase v = toLowerCase (correctAnswer (normalizeQuizItem q))
              \<longrightarrow> v = correctAnswer (normalizeQuizItem q))
            \<longrightarrow> correctAnswer (normalizeQuizItem (as_raw (normalizeQuizItem q)))
                  = correctAnswer (normalizeQuizItem q))"
proof -
  let ?n = "normalizeQuizItem q"
  let ?a = "correctAnswer ?n"
  let ?opts2 = "map stripLabel (options ?n)"
  let ?r = "correctAnswer (normalizeQuizItem (as_raw ?n))"
  have tr: "trimmed ?a" by (rule trimmed_correctAnswer)
  have sa: "stripLabel ?a = ?a" using tr assms by (rule stripLabel_no_letter)
  have re: "?r = pick_by_text ?opts2 ?a"
    using assms tr by (rule renormalize_unfold)
  have o2: "options (normalizeQuizItem (as_raw ?n)) = ?opts2"
    by (simp add: options_normalizeQuizItem as_raw_def)
  from correctAnswer_cases [of q] show ?thesis
  proof
    assume mem: "?a \<in> set (options ?n)"
    then have ne: "options ?n \<noteq> []" by auto
    from mem have "stripLabel ?a \<in> set ?opts2" by simp
    then have "?a \<in> set ?opts2" by (simp only: sa)
    then have "findIndex (\<lambda>v. toLowerCase v = toLowerCase ?a) ?opts2 \<noteq> None"
      by (auto simp: findIndex_None)
    then obtain k where k: "findIndex (\<lambda>v. toLowerCase v = toLowerCase ?a) ?opts2 = Some k"
      by blast
    then have p: "pick_by_text ?opts2 ?a = ?opts2 ! k"
      by (simp add: pick_by_text_def Let_def sa)
    from findIndex_Some [OF k]
    have kk: "k < length ?opts2" "toLowerCase (?opts2 ! k) = toLowerCase ?a"
      "\<forall>j<k. toLowerCase (?opts2 ! j) \<noteq> toLowerCase ?a"
      by blast+
    then have in2: "?opts2 ! k \<in> set ?opts2" by (meson nth_mem)
    have first: "\<exists>k < length ?opts2. pick_by_text ?opts2 ?a = ?opts2 ! k
        \<and> toLowerCase (?opts2 ! k) = toLowerCase ?a
        \<and> (\<forall>j<k. toLowerCase (?opts2 ! j) \<noteq> toLowerCase ?a)"
      using kk p by blast
    have same: "toLowerCase (pick_by_text ?opts2 ?a) = toLowerCase ?a"
      using kk(2) p by simp
    have uniq: "(\<forall>v \<in> set ?opts2. toLowerCase v = toLowerCase ?a \<longrightarrow> v = ?a)
        \<longrightarrow> pick_by_text ?opts2 ?a = ?a"
      using in2 kk(2) p by auto
    from first same uniq ne show ?thesis unfolding re o2 by blast
  next
    assume "options ?n = [] \<and> ?a = []"
    then have e: "options ?n = []" "?a = []" by simp_all
    show ?thesis unfolding re o2 e by (simp add: pick_by_text_Nil)
  qed
qed

theorem renormalize_same_up_to_case_witness:
  "leading_letter (correctAnswer (normalizeQuizItem percent_item)) = None
   \<and> correctAnswer (normalizeQuizItem percent_item) = ''25 %''
   \<and> correctAnswer (normalizeQuizItem (as_raw (normalizeQuizItem percent_item))) = ''25 %''"
proof -
  have a: "correctAnswer (normalizeQuizItem percent_item) = ''25 %''" by code_simp
  have h: "leading_letter (correctAnswer (normalizeQuizItem percent_item)) = None" by code_simp
  have o: "options (normalizeQuizItem (as_raw (normalizeQuizItem percent_item)))
      = [''10 %'', ''25 %'', ''50 %'', ''75 %'']"
    by code_simp
  have u: "\<forall>v \<in> set [''10 %'', ''25 %'', ''50 %'', ''75 %''].
      toLowerCase v = toLowerCase ''25 %'' \<longrightarrow> v = ''25 %''"
    by code_simp
  from renormalize_same_up_to_case [OF h]
  have "(\<forall>v \<in> set (options (normalizeQuizItem (as_raw (normalizeQuizItem percent_item)))).
              toLowerCase v = toLowerCase (correctAnswer (normalizeQuizItem percent_item))
              \<longrightarrow> v = correctAnswer (normalizeQuizItem percent_item))
            \<longrightarrow> correctAnswer (normalizeQuizItem (as_raw (normalizeQuizItem percent_item)))
                  = correctAnswer (normalizeQuizItem percent_item)"
    by blast
  with u show ?thesis
    unfolding o a using h by (simp only: a simp_thms)
qed

text \<open>
  Claim C7, as stated, fails: with the options \<open>1 dog\<close> and \<open>1 Dog\<close> and the index 1
  the normalized answer is \<open>1 Dog\<close>, the literal text of the second option, and
  normalizing that question again yields \<open>1 dog\<close>, the first option that matches when
  case is ignored.
\<close>

theorem renormalize_changes_answer:
  "correctAnswer (normalizeQuizItem two_dogs) = ''1 Dog''
   \<and> options (normalizeQuizItem two_dogs) = [''1 dog'', ''1 Dog'', ''2 cats'', ''3 birds'']
   \<and> correctAnswer (normalizeQuizItem two_dogs) \<in> set (options (normalizeQuizItem two_dogs))
   \<and> correctAnswer (normalizeQuizItem (as_raw (normalizeQuizItem two_dogs))) = ''1 dog''
   \<and> correctAnswer (normalizeQuizItem (as_raw (normalizeQuizItem two_dogs)))
       \<noteq> correctAnswer (normalizeQuizItem two_dogs)"
  by code_simp

section \<open>Properties of the synchronization\<close>

subsection \<open>Fallback pacing\<close>

lemma getMsPerWord_pos: "0 < getMsPerWord r"
  by (simp add: getMsPerWord_def)

lemma tick_not_speaking:
  "\<not> isSpeakingRef s \<Longrightarrow> tick ws r s = clearHighlightTimer s"
  by (simp add: tick_def)

lemma tick_pause:
  "isSpeakingRef s \<Longrightarrow> 0 < remainingPauseMs s - getMsPerWord r \<Longrightarrow>
   tick ws r s = s\<lparr>remainingPauseMs := remainingPauseMs s - getMsPerWord r\<rparr>"
  using getMsPerWord_pos [of r] by (simp add: tick_def Let_def)

lemma tick_last:
  assumes "isSpeakingRef s" "\<not> 0 < remainingPauseMs s - getMsPerWord r" "length ws \<le> Suc (fb_i s)"
  shows "indexWrites (tick ws r s) = indexWrites s @ [(Fallback, None)]"
    and "\<not> highlightTimerRef (tick ws r s)"
    and "\<not> isSpeaking (tick ws r s)"
    and "currentWordIndex (tick ws r s) = None"
  using assms
  by (simp_all add: tick_def Let_def setCurrentWordIndex_def clearHighlightTimer_def)

lemma tick_next:
  assumes "isSpeakingRef s" "\<not> 0 < remainingPauseMs s - getMsPerWord r" "Suc (fb_i s) < length ws"
    "highlightTimerRef s"
  shows "indexWrites (tick ws r s) = indexWrites s @ [(Fallback, Some (Suc (fb_i s)))]"
    and "highlightTimerRef (tick ws r s)"
    and "isSpeakingRef (tick ws r s)"
    and "fb_i (tick ws r s) = Suc (fb_i s)"
  using assms
  by (simp_all add: tick_def Let_def setCurrentWordIndex_def)

lemma run_fallback_trace:
  "highlightTimerRef s \<Longrightarrow> isSpeakingRef s \<Longrightarrow> fb_i s < length ws \<Longrightarrow>
   indexWrites (run_fallback ws r s) =
     indexWrites s @ map (\<lambda>k. (Fallback, Some k)) [Suc (fb_i s)..<length ws] @ [(Fallback, None)]
   \<and> \<not> highlightTimerRef (run_fallback ws r s)
   \<and> \<not> isSpeaking (run_fallback ws r s)
   \<and> currentWordIndex (run_fallback ws r s) = None"
proof (induction ws r s rule: run_fallback.induct)
  case (1 ws r s)
  have unfold: "run_fallback ws r s = run_fallback ws r (tick ws r s)"
    using "1.prems"(1) by (subst run_fallback.simps) simp
  consider (paused) "0 < remainingPauseMs s - getMsPerWord r"
    | (final) "\<not> 0 < remainingPauseMs s - getMsPerWord r" "length ws \<le> Suc (fb_i s)"
    | (advance) "\<not> 0 < remainingPauseMs s - getMsPerWord r" "Suc (fb_i s) < length ws"
    by linarith
  then show ?case
  proof cases
    case paused
    have t: "tick ws r s = s\<lparr>remainingPauseMs := remainingPauseMs s - getMsPerWord r\<rparr>"
      using "1.prems"(2) paused by (rule tick_pause)
    from "1.IH" [OF "1.prems"(1)] "1.prems" show ?thesis
      unfolding unfold by (simp add: t)
  next
    case final
    note tl = tick_last [OF "1.prems"(2) final]
    have stop: "run_fallback ws r (tick ws r s) = tick ws r s"
      using tl(2) by (subst run_fallback.simps) simp
    from final(2) have "[Suc (fb_i s)..<length ws] = []" by simp
    with tl show ?thesis unfolding unfold stop by simp
  next
    case advance
    note tn = tick_next [OF "1.prems"(2) advance "1.prems"(1)]
    have "[Suc (fb_i s)..<length ws] = Suc (fb_i s) # [Suc (Suc (fb_i s))..<length ws]"
      using advance(2) by (simp add: upt_conv_Cons)
    moreover from advance(2) tn(4) have "fb_i (tick ws r s) < length ws" by simp
    ultimately show ?thesis
      using "1.IH" [OF "1.prems"(1) tn(2) tn(3)] tn(1,4)
      unfolding unfold by simp
  qed
qed

text \<open>
  Claim C1. For a non-empty word list and any rate, starting the fallback pacing in a
  session that is speaking and letting the interval run until it is cleared, with no
  stop in between, writes \<open>currentWordIndex\<close> exactly the values 0, 1, ..., len - 1, each
  once and in this order, and then \<open>null\<close>; the run ends (\<open>run_fallback\<close> is total)
  with the interval cleared, \<open>isSpeaking\<close> false and \<open>currentWordIndex\<close> null.
\<close>

theorem fallback_visits_every_word_once:
  assumes "words \<noteq> []" and "isSpeakingRef s"
  shows "indexWrites (run_fallback words rate (startFallback s)) =
           indexWrites s @ map (\<lambda>k. (Fallback, Some k)) [0..<length words] @ [(Fallback, None)]
       \<and> \<not> highlightTimerRef (run_fallback words rate (startFallback s))
       \<and> \<not> isSpeaking (run_fallback words rate (startFallback s))
       \<and> currentWordIndex (run_fallback words rate (startFallback s)) = None"
proof -
  let ?s = "startFallback s"
  have s: "highlightTimerRef ?s" "isSpeakingRef ?s" "fb_i ?s = 0"
    "indexWrites ?s = indexWrites s @ [(Fallback, Some 0)]"
    using assms(2) by (simp_all add: startFallback_def Let_def setCurrentWordIndex_def)
  from assms(1) have len: "0 < length words" by simp
  then have "[0..<length words] = 0 # [Suc 0..<length words]"
    by (simp add: upt_conv_Cons)
  moreover from len s(3) have "fb_i ?s < length words" by simp
  ultimately show ?thesis
    using run_fallback_trace [OF s(1) s(2), of words rate] s(3,4) by simp
qed

theorem fallback_visits_every_word_once_witness:
  "indexWrites (run_fallback [''Hi,'', ''there.'', ''Bye''] 1 (startFallback speaking)) =
     [(Fallback, Some 0), (Fallback, Some 1), (Fallback, Some 2), (Fallback, None)]
   \<and> \<not> highlightTimerRef (run_fallback [''Hi,'', ''there.'', ''Bye''] 1 (startFallback speaking))
   \<and> \<not> isSpeaking (run_fallback [''Hi,'', ''there.'', ''Bye''] 1 (startFallback speaking))
   \<and> currentWordIndex (run_fallback [''Hi,'', ''there.'', ''Bye''] 1 (startFallback speaking)) = None"
proof -
  have w: "[''Hi,'', ''there.'', ''Bye''] \<noteq> []" by simp
  have r: "isSpeakingRef speaking" by (simp add: speaking_def initial_def)
  have i: "indexWrites speaking = []" by (simp add: speaking_def initial_def)
  have u: "[0..<length [''Hi,'', ''there.'', ''Bye'']] = [0, 1, 2]" by code_simp
  from fallback_visits_every_word_once [OF w r, of 1] show ?thesis
    unfolding i u by simp
qed

subsection \<open>Pacing profile\<close>

text \<open>
  Claim C8. The delay per word depends on the rate alone: 420 ms for a rate of at most
  0.6, 340 ms for a rate between 0.6 and 1.1, 150 ms otherwise. At every rate the pause
  after a word that ends a sentence is longer than the pause after a word that ends a
  clause, and both are longer at a slow rate (at most 0.6) than at a faster one.
\<close>

theorem pacing_profile:
  "(rate \<le> 6 / 10 \<longrightarrow> getMsPerWord rate = 420) \<and>
   (6 / 10 < rate \<and> rate < 11 / 10 \<longrightarrow> getMsPerWord rate = 340) \<and>
   (\<not> rate < 11 / 10 \<longrightarrow> getMsPerWord rate = 150) \<and>
   (sentence_end w1 \<and> clause_end w2 \<longrightarrow>
      pause_after rate w1 p1 = PAUSE_MS_SENTENCE rate \<and>
      pause_after rate w2 p2 = PAUSE_MS_COMMA rate \<and>
      pause_after rate w2 p2 < pause_after rate w1 p1 \<and>
      (slow \<le> 6 / 10 \<and> \<not> rate \<le> 6 / 10 \<longrightarrow>
         pause_after rate w1 p1 < pause_after slow w1 p1 \<and>
         pause_after rate w2 p2 < pause_after slow w2 p2))"
  by (auto simp: getMsPerWord_def pause_after_def PAUSE_MS_SENTENCE_def PAUSE_MS_COMMA_def
                 sentence_end_def clause_end_def)

theorem pacing_profile_witness:
  "getMsPerWord (1 / 2) = 420 \<and> getMsPerWord 1 = 340 \<and> getMsPerWord 2 = 150 \<and>
   pause_after 1 ''end.'' 0 = 400 \<and> pause_after 1 ''so,'' 0 = 100 \<and>
   pause_after (1 / 2) ''end.'' 0 = 800 \<and> pause_after (1 / 2) ''so,'' 0 = 200"
proof -
  have s: "sentence_end ''end.''" by (simp add: sentence_end_def)
  have c: "clause_end ''so,''" by (simp add: clause_end_def)
  have r: "(1 / 2 :: rat) \<le> 6 / 10" "\<not> (1 :: rat) \<le> 6 / 10" "(6 / 10 :: rat) < 1" "(1::rat) < 11 / 10"
     "\<not> (2 :: rat) < 11 / 10" by simp_all
  from pacing_profile [of 1 "''end.''" "''so,''" 0 0 "1 / 2"] pacing_profile [of "1 / 2" "''end.''" "''so,''" 0 0 "1 / 2"]
    pacing_profile [of 2 "''end.''" "''so,''" 0 0 "1 / 2"] s c r
  show ?thesis by (simp add: PAUSE_MS_SENTENCE_def PAUSE_MS_COMMA_def)
qed

subsection \<open>Boundary events\<close>

lemma cumulative_Cons_Suc: "cumulative (w # ws) (Suc k) = length w + 1 + cumulative ws k"
  by (simp add: cumulative_def)

lemma boundary_scan_Some_iff:
  "boundary_scan ws i n c = Some j \<longleftrightarrow>
     (\<exists>k<length ws. j = i + k \<and> c < n + cumulative ws (Suc k)
                   \<and> (\<forall>m<k. n + cumulative ws (Suc m) \<le> c))"
proof (induction ws arbitrary: i n)
  case Nil
  show ?case by simp
next
  case (Cons w ws)
  show ?case
  proof (cases "c < n + (length w + 1)")
    case True
    have "(\<exists>k<length (w # ws). j = i + k \<and> c < n + cumulative (w # ws) (Suc k)
                   \<and> (\<forall>m<k. n + cumulative (w # ws) (Suc m) \<le> c)) \<longleftrightarrow> j = i"
    proof
      assume "\<exists>k<length (w # ws). j = i + k \<and> c < n + cumulative (w # ws) (Suc k)
                   \<and> (\<forall>m<k. n + cumulative (w # ws) (Suc m) \<le> c)"
      then obtain k where k: "j = i + k" "\<forall>m<k. n + cumulative (w # ws) (Suc m) \<le> c" by blast
      have "k = 0"
      proof (rule ccontr)
        assume "k \<noteq> 0"
        with k(2) have "n + cumulative (w # ws) (Suc 0) \<le> c" by blast
        with True show False by (simp add: cumulative_def)
      qed
      with k(1) show "j = i" by simp
    next
      assume "j = i"
      with True show "\<exists>k<length (w # ws). j = i + k \<and> c < n + cumulative (w # ws) (Suc k)
                   \<and> (\<forall>m<k. n + cumulative (w # ws) (Suc m) \<le> c)"
        by (intro exI [of _ 0]) (simp add: cumulative_def)
    qed
    with True show ?thesis by (auto simp: Let_def)
  next
    case False
    have "(\<exists>k<length (w # ws). j = i + k \<and> c < n + cumulative (w # ws) (Suc k)
                   \<and> (\<forall>m<k. n + cumulative (w # ws) (Suc m) \<le> c))
       \<longleftrightarrow> (\<exists>k<length ws. j = Suc i + k \<and> c < n + (length w + 1) + cumulative ws (Suc k)
                   \<and> (\<forall>m<k. n + (length w + 1) + cumulative ws (Suc m) \<le> c))"
      (is "?L \<longleftrightarrow> ?R")
    proof
      assume ?L
      then obtain k where k: "k < length (w # ws)" "j = i + k" "c < n + cumulative (w # ws) (Suc k)"
        "\<forall>m<k. n + cumulative (w # ws) (Suc m) \<le> c" by blast
      have "k \<noteq> 0"
      proof
        assume "k = 0"
        with k(3) False show False by (simp add: cumulative_def)
      qed
      then obtain k' where k': "k = Suc k'" by (cases k) auto
      have "\<forall>m<k'. n + (length w + 1) + cumulative ws (Suc m) \<le> c"
      proof (intro allI impI)
        fix m assume "m < k'"
        then have "Suc m < k" by (simp add: k')
        with k(4) have "n + cumulative (w # ws) (Suc (Suc m)) \<le> c" by blast
        then show "n + (length w + 1) + cumulative ws (Suc m) \<le> c"
          by (simp add: cumulative_Cons_Suc)
      qed
      with k k' show ?R
        by (intro exI [of _ k']) (simp add: cumulative_Cons_Suc)
    next
      assume ?R
      then obtain k where k: "k < length ws" "j = Suc i + k"
        "c < n + (length w + 1) + cumulative ws (Suc k)"
        "\<forall>m<k. n + (length w + 1) + cumulative ws (Suc m) \<le> c" by blast
      have "\<forall>m<Suc k. n + cumulative (w # ws) (Suc m) \<le> c"
      proof (intro allI impI)
        fix m assume m: "m < Suc k"
        show "n + cumulative (w # ws) (Suc m) \<le> c"
        proof (cases m)
          case 0
          with False show ?thesis by (simp add: cumulative_def)
        next
          case (Suc m')
          with m have "m' < k" by simp
          with k(4) have "n + (length w + 1) + cumulative ws (Suc m') \<le> c" by blast
          with Suc show ?thesis by (simp add: cumulative_Cons_Suc)
        qed
      qed
      with k show ?L
        by (intro exI [of _ "Suc k"]) (simp add: cumulative_Cons_Suc)
    qed
    with False Cons.IH [of "Suc i" "n + (length w + 1)"] show ?thesis
      by (simp add: Let_def)
  qed
qed

lemma boundary_index_Some_iff:
  "boundary_index ws c = Some j \<longleftrightarrow>
     j < length ws \<and> c < cumulative ws (Suc j) \<and> (\<forall>m<j. cumulative ws (Suc m) \<le> c)"
  unfolding boundary_index_def boundary_scan_Some_iff by auto

lemma boundary_index_mono:
  assumes "c1 \<le> c2" "boundary_index ws c1 = Some i1" "boundary_index ws c2 = Some i2"
  shows "i1 \<le> i2"
proof (rule ccontr)
  assume "\<not> i1 \<le> i2"
  then have "i2 < i1" by simp
  with assms(2) have "cumulative ws (Suc i2) \<le> c1" by (simp add: boundary_index_Some_iff)
  moreover from assms(3) have "c2 < cumulative ws (Suc i2)" by (simp add: boundary_index_Some_iff)
  ultimately show False using assms(1) by simp
qed

lemma boundary_indices_sorted:
  "sorted cs \<Longrightarrow> sorted (List.map_filter (boundary_index ws) cs)"
proof (induction cs)
  case Nil
  show ?case by simp
next
  case (Cons c cs)
  then have IH: "sorted (List.map_filter (boundary_index ws) cs)" by simp
  show ?case
  proof (cases "boundary_index ws c")
    case None
    with IH show ?thesis by simp
  next
    case (Some a)
    have "\<forall>b \<in> set (List.map_filter (boundary_index ws) cs). a \<le> b"
    proof
      fix b assume "b \<in> set (List.map_filter (boundary_index ws) cs)"
      then obtain c' where c': "c' \<in> set cs" "boundary_index ws c' = Some b"
        by (auto simp: List.map_filter_def)
      with Cons.prems have "c \<le> c'" by auto
      then show "a \<le> b" using Some c'(2) by (rule boundary_index_mono)
    qed
    with IH Some show ?thesis by simp
  qed
qed

text \<open>
  Claim C2. A boundary event at a character offset is mapped to the first word whose
  cumulative length, one more per word for the space, exceeds the offset; so along a
  non-decreasing sequence of offsets the word indices that are computed are
  non-decreasing.
\<close>

theorem boundary_mapping:
  "(boundary_index ws c = Some j \<longleftrightarrow>
      j < length ws \<and> c < cumulative ws (Suc j) \<and> (\<forall>m<j. cumulative ws (Suc m) \<le> c)) \<and>
   (sorted cs \<longrightarrow> sorted (List.map_filter (boundary_index ws) cs))"
  using boundary_index_Some_iff boundary_indices_sorted by blast

theorem boundary_mapping_witness:
  "sorted [0, 3, 4, 10, 11, 14, 15, 20 :: nat] \<and>
   List.map_filter (boundary_index [''Hi,'', ''there.'', ''Bye'']) [0, 3, 4, 10, 11, 14, 15, 20]
     = [0, 0, 1, 1, 2, 2] \<and>
   sorted (List.map_filter (boundary_index [''Hi,'', ''there.'', ''Bye'']) [0, 3, 4, 10, 11, 14, 15, 20])"
proof -
  have s: "sorted [0, 3, 4, 10, 11, 14, 15, 20 :: nat]" by simp
  have e: "List.map_filter (boundary_index [''Hi,'', ''there.'', ''Bye'']) [0, 3, 4, 10, 11, 14, 15, 20]
     = [0, 0, 1, 1, 2, 2]" by code_simp
  from boundary_mapping [of "[''Hi,'', ''there.'', ''Bye'']" 4 1 "[0, 3, 4, 10, 11, 14, 15, 20]"] s e
  show ?thesis by simp
qed

subsection \<open>Stop and the grace window\<close>







subsection \<open>Arbitration\<close>

lemma fire_timers_off:
  "timers_off s \<Longrightarrow> timers_off (fire ws r e s) \<and> fallback_writes (fire ws r e s) = fallback_writes s"
  by (cases e)
     (auto simp: timers_off_def fallback_writes_def onboundary_def onend_def onerror_def
                 stopSpeaking_def syncSpeakingRef_def elapse_def Let_def
                 setCurrentWordIndex_def clearHighlightTimer_def split: option.splits)

lemma run_events_timers_off:
  "timers_off s \<Longrightarrow> fallback_writes (run_events ws r es s) = fallback_writes s
     \<and> timers_off (run_events ws r es s)"
proof (induction es arbitrary: s)
  case Nil
  then show ?case by simp
next
  case (Cons e es)
  from fire_timers_off [OF Cons.prems, of ws r e] Cons.IH [of "fire ws r e s"]
  show ?case by simp
qed

lemma first_boundary_timers_off:
  "\<not> firstBoundaryHeardRef s \<Longrightarrow> timers_off (onboundary ws c s) \<and> firstBoundaryHeardRef (onboundary ws c s)"
  by (auto simp: timers_off_def onboundary_def Let_def setCurrentWordIndex_def
                 clearHighlightTimer_def split: option.splits)

text \<open>
  Claim C4. The first boundary event of a session cancels the arbitration timeout and
  clears the pacing interval; whatever happens afterwards in the session (ticks, the
  timeout, further boundary events, end, error, stop, the effect, time passing), no
  further write of \<open>currentWordIndex\<close> comes from the fallback pacing. A tick that finds
  the speaking flag false clears the interval and writes no index.
\<close>

theorem boundary_silences_fallback:
  "(\<not> firstBoundaryHeardRef s \<longrightarrow>
      \<not> fallbackTimer (onboundary ws c s) \<and> \<not> highlightTimerRef (onboundary ws c s)
      \<and> fallback_writes (onboundary ws c s) = fallback_writes s
      \<and> fallback_writes (run_events ws r es (onboundary ws c s)) = fallback_writes s)
   \<and> (\<not> isSpeakingRef s \<longrightarrow>
      \<not> highlightTimerRef (tick ws r s) \<and> indexWrites (tick ws r s) = indexWrites s
      \<and> currentWordIndex (tick ws r s) = currentWordIndex s)"
proof -
  have b: "fallback_writes (onboundary ws c s) = fallback_writes s"
    by (simp add: fallback_writes_def onboundary_def Let_def setCurrentWordIndex_def
                  clearHighlightTimer_def split: option.splits)
  have t: "\<not> highlightTimerRef (tick ws r s) \<and> indexWrites (tick ws r s) = indexWrites s
      \<and> currentWordIndex (tick ws r s) = currentWordIndex s" if "\<not> isSpeakingRef s"
    using that by (simp add: tick_not_speaking clearHighlightTimer_def)
  have f: "timers_off (onboundary ws c s)
      \<and> fallback_writes (run_events ws r es (onboundary ws c s)) = fallback_writes s"
    if "\<not> firstBoundaryHeardRef s"
    using first_boundary_timers_off [OF that, of ws c]
      run_events_timers_off [of "onboundary ws c s" ws r es] b by simp
  from b t f show ?thesis by (auto simp: timers_off_def)
qed

theorem boundary_silences_fallback_witness:
  "\<not> firstBoundaryHeardRef (run_events [''Hi,'', ''there.'', ''Bye''] 1 [Deadline, Tick] speaking)
   \<and> highlightTimerRef (run_events [''Hi,'', ''there.'', ''Bye''] 1 [Deadline, Tick] speaking)
   \<and> fallback_writes (run_events [''Hi,'', ''there.'', ''Bye''] 1 [Deadline, Tick] speaking)
       = [(Fallback, Some 0), (Fallback, Some 1)]
   \<and> fallback_writes (run_events [''Hi,'', ''there.'', ''Bye''] 1
         [Tick, Deadline, Tick, BoundaryEv 11, Tick]
         (onboundary [''Hi,'', ''there.'', ''Bye''] 4
            (run_events [''Hi,'', ''there.'', ''Bye''] 1 [Deadline, Tick] speaking)))
       = [(Fallback, Some 0), (Fallback, Some 1)]
   \<and> \<not> isSpeakingRef (run_events [''Hi,'', ''there.'', ''Bye''] 1 [StopEv, EffectEv, Deadline] speaking)
   \<and> highlightTimerRef (run_events [''Hi,'', ''there.'', ''Bye''] 1 [StopEv, EffectEv, Deadline] speaking)
   \<and> \<not> highlightTimerRef (tick [''Hi,'', ''there.'', ''Bye''] 1
         (run_events [''Hi,'', ''there.'', ''Bye''] 1 [StopEv, EffectEv, Deadline] speaking))"
proof -
  let ?ws = "[''Hi,'', ''there.'', ''Bye'']"
  let ?s1 = "run_events ?ws 1 [Deadline, Tick] speaking"
  let ?s2 = "run_events ?ws 1 [StopEv, EffectEv, Deadline] speaking"
  have h1: "\<not> firstBoundaryHeardRef ?s1" by code_simp
  have a1: "highlightTimerRef ?s1" by code_simp
  have w1: "fallback_writes ?s1 = [(Fallback, Some 0), (Fallback, Some 1)]" by code_simp
  have h2: "\<not> isSpeakingRef ?s2" by code_simp
  have a2: "highlightTimerRef ?s2" by code_simp
  from boundary_silences_fallback [of ?s1 ?ws 4 1 "[Tick, Deadline, Tick, BoundaryEv 11, Tick]"]
    boundary_silences_fallback [of ?s2 ?ws 4 1 "[]"] h1 a1 h2 a2
  show ?thesis by (simp only: w1 simp_thms)
qed

section \<open>Properties of the results screen\<close>

lemma bitlen_bounds: "0 < n \<Longrightarrow> 2 ^ (bitlen n - 1) \<le> n \<and> n < 2 ^ bitlen n"
proof (induction n rule: bitlen.induct)
  case (1 n)
  show ?case
  proof (cases "n = 1")
    case True
    then show ?thesis by (simp add: bitlen.simps)
  next
    case False
    with "1.prems" have h: "0 < n div 2" by simp
    from "1.IH" [OF _ h] "1.prems"
    have IH: "2 ^ (bitlen (n div 2) - 1) \<le> n div 2" "n div 2 < 2 ^ bitlen (n div 2)" by simp_all
    have b: "bitlen n = Suc (bitlen (n div 2))" using "1.prems" by (subst bitlen.simps) simp
    have p: "0 < bitlen (n div 2)" using h by (subst bitlen.simps) simp
    then have "(2::int) ^ bitlen (n div 2) = 2 * 2 ^ (bitlen (n div 2) - 1)"
      by (cases "bitlen (n div 2)") simp_all
    with IH show ?thesis unfolding b by simp linarith
  qed
qed

lemma pow2_pos: "0 < pow2 e"
  by (simp add: pow2_def)

lemma pow2_add: "pow2 (a + b) = pow2 a * pow2 b"
  by (simp add: pow2_def power_int_add)

lemma pow2_nat: "pow2 (int n) = 2 ^ n"
  by (simp add: pow2_def)

lemma pow2_ge_2: "0 < e \<Longrightarrow> 2 \<le> pow2 e"
proof -
  assume "0 < e"
  then obtain n where e: "e = int (Suc n)"
    by (metis Suc_pred' zero_less_imp_eq_int)
  have "(1::rat) \<le> 2 ^ n" by simp
  then show ?thesis unfolding e pow2_nat by simp
qed

lemma pow2_le_D: "pow2 a \<le> pow2 b \<Longrightarrow> a \<le> b"
proof (rule ccontr)
  assume le: "pow2 a \<le> pow2 b" and "\<not> a \<le> b"
  then have "0 < a - b" by simp
  then have "2 \<le> pow2 (a - b)" by (rule pow2_ge_2)
  then have "2 * pow2 b \<le> pow2 (a - b) * pow2 b"
    using pow2_pos [of b] by simp
  also have "\<dots> = pow2 a" using pow2_add [of "a - b" b] by simp
  finally show False using le pow2_pos [of b] by simp
qed

lemma pow2_mono: "a \<le> b \<Longrightarrow> pow2 a \<le> pow2 b"
  by (simp add: pow2_def power_int_increasing)

lemma ilog2_le:
  assumes "0 < x"
  shows "pow2 (ilog2 x) \<le> x"
proof -
  obtain a b where q: "quotient_of x = (a, b)" by (cases "quotient_of x")
  then have b: "0 < b" and x: "x = of_int a / of_int b"
    by (rule quotient_of_denom_pos, rule quotient_of_div)
  from assms b x have a: "0 < a" by (simp add: zero_less_divide_iff)
  let ?la = "bitlen a" and ?lb = "bitlen b"
  let ?e = "int ?la - int ?lb"
  show ?thesis
  proof (cases "pow2 ?e \<le> x")
    case True
    then show ?thesis by (simp add: ilog2_def q)
  next
    case False
    then have i: "ilog2 x = ?e - 1" by (simp add: ilog2_def q)
    from bitlen_bounds [OF a] have la: "2 ^ (?la - 1) \<le> a" by simp
    from bitlen_bounds [OF b] have lb: "b < 2 ^ ?lb" by simp
    have lapos: "0 < ?la" using a by (subst bitlen.simps) simp
    have "pow2 (?e - 1) * pow2 (int ?lb) = pow2 (int (?la - 1))"
      using lapos by (simp add: pow2_add [symmetric] of_nat_diff)
    then have "pow2 (?e - 1) * 2 ^ ?lb = 2 ^ (?la - 1)" by (simp only: pow2_nat)
    then have "pow2 (?e - 1) = 2 ^ (?la - 1) / 2 ^ ?lb"
      by (simp add: field_simps)
    also have "\<dots> \<le> of_int a / 2 ^ ?lb"
    proof -
      have "(2::rat) ^ (?la - 1) \<le> of_int a"
        using la by (metis of_int_le_iff of_int_numeral of_int_power)
      then show ?thesis by (simp add: divide_right_mono)
    qed
    also have "\<dots> \<le> of_int a / of_int b"
    proof -
      have "(of_int b :: rat) \<le> 2 ^ ?lb"
        using lb by (metis less_imp_le of_int_le_iff of_int_numeral of_int_power)
      with a b show ?thesis by (simp add: frac_le)
    qed
    finally have "pow2 (?e - 1) \<le> of_int a / of_int b" .
    then show ?thesis by (simp only: i x [symmetric])
  qed
qed

lemma nearest_int:
  fixes m :: rat
  defines "f \<equiv> \<lfloor>m\<rfloor>"
  defines "r \<equiv> m - of_int f"
  defines "k \<equiv> (if r < 1 / 2 then f else if 1 / 2 < r then f + 1
                    else if even f then f else f + 1)"
  shows "\<bar>of_int k - m\<bar> \<le> 1 / 2" and "m \<in> \<int> \<Longrightarrow> of_int k = m"
proof -
  have r: "0 \<le> r" "r < 1" unfolding r_def f_def by linarith+
  have m: "m = of_int f + r" by (simp add: r_def)
  show "\<bar>of_int k - m\<bar> \<le> 1 / 2"
    unfolding k_def m using r by auto
  assume "m \<in> \<int>"
  then have "of_int f = m" unfolding f_def by (simp add: Ints_def)
  then have "r = 0" by (simp add: r_def)
  then show "of_int k = m" unfolding k_def m by simp
qed

lemma to_double_error:
  "\<bar>to_double x - x\<bar> \<le> pow2 (ilog2 x - 52) / 2"
proof (cases "x = 0")
  case True
  then show ?thesis using pow2_pos [of "ilog2 x - 52"] by (simp add: to_double_def)
next
  case False
  let ?q = "pow2 (ilog2 x - 52)"
  let ?m = "x / ?q"
  let ?f = "\<lfloor>?m\<rfloor>"
  let ?r = "?m - of_int ?f"
  let ?k = "(if ?r < 1 / 2 then ?f else if 1 / 2 < ?r then ?f + 1
                    else if even ?f then ?f else ?f + 1)"
  have q: "0 < ?q" by (rule pow2_pos)
  have t: "to_double x = of_int ?k * ?q"
    using False by (simp add: to_double_def Let_def)
  have "\<bar>of_int ?k - ?m\<bar> \<le> 1 / 2" by (rule nearest_int(1))
  then have "\<bar>of_int ?k - ?m\<bar> * ?q \<le> 1 / 2 * ?q"
    using q by (simp only: mult_le_cancel_right_pos)
  moreover have "\<bar>of_int ?k - ?m\<bar> * ?q = \<bar>of_int ?k * ?q - x\<bar>"
  proof -
    have "\<bar>of_int ?k - ?m\<bar> * ?q = \<bar>(of_int ?k - ?m) * ?q\<bar>"
      using q by (simp add: abs_mult)
    also have "(of_int ?k - ?m) * ?q = of_int ?k * ?q - x"
      using q by (simp add: left_diff_distrib)
    finally show ?thesis .
  qed
  ultimately show ?thesis unfolding t by simp
qed

lemma to_double_exact:
  assumes "x / pow2 (ilog2 x - 52) \<in> \<int>"
  shows "to_double x = x"
proof (cases "x = 0")
  case True
  then show ?thesis by (simp add: to_double_def)
next
  case False
  let ?q = "pow2 (ilog2 x - 52)"
  let ?m = "x / ?q"
  let ?f = "\<lfloor>?m\<rfloor>"
  let ?r = "?m - of_int ?f"
  let ?k = "(if ?r < 1 / 2 then ?f else if 1 / 2 < ?r then ?f + 1
                    else if even ?f then ?f else ?f + 1)"
  have q: "0 < ?q" by (rule pow2_pos)
  have t: "to_double x = of_int ?k * ?q"
    using False by (simp add: to_double_def Let_def)
  have "of_int ?k = ?m" using assms by (rule nearest_int(2))
  then show ?thesis unfolding t using q by simp
qed

lemma pow2_0: "pow2 0 = 1"
  by (simp add: pow2_def)

lemma pow2_neg: "pow2 (- int n) = 1 / 2 ^ n"
  by (simp add: pow2_def power_int_minus field_simps)

lemma pow2_Ints: "0 \<le> e \<Longrightarrow> pow2 e \<in> \<int>"
proof -
  assume "0 \<le> e"
  then obtain n where "e = int n" using nonneg_int_cases by blast
  then show ?thesis by (simp add: pow2_nat)
qed

lemma ilog2_upper:
  assumes "0 < x" "x < pow2 (b + 1)"
  shows "ilog2 x \<le> b"
proof (rule ccontr)
  assume "\<not> ilog2 x \<le> b"
  then have "b + 1 \<le> ilog2 x" by simp
  then have "pow2 (b + 1) \<le> pow2 (ilog2 x)" by (rule pow2_mono)
  also have "\<dots> \<le> x" using assms(1) by (rule ilog2_le)
  finally show False using assms(2) by simp
qed

lemma to_double_error_bound:
  assumes "0 < x" "x < pow2 (b + 1)"
  shows "\<bar>to_double x - x\<bar> \<le> pow2 (b - 52) / 2"
proof -
  have "ilog2 x - 52 \<le> b - 52" using ilog2_upper [OF assms] by simp
  then have "pow2 (ilog2 x - 52) \<le> pow2 (b - 52)" by (rule pow2_mono)
  with to_double_error [of x] show ?thesis by simp
qed

lemma to_double_dyadic:
  assumes "0 < x" "x < pow2 (b + 1)" "b \<le> 52 - int k" "x * 2 ^ k \<in> \<int>"
  shows "to_double x = x"
proof (rule to_double_exact)
  let ?e = "ilog2 x"
  have e: "?e \<le> b" using assms(1,2) by (rule ilog2_upper)
  have "pow2 (?e - 52) * pow2 (52 - ?e) = pow2 0"
    using pow2_add [of "?e - 52" "52 - ?e"] by simp
  then have "pow2 (?e - 52) * pow2 (52 - ?e) = 1"
    by (simp add: pow2_0)
  then have "x / pow2 (?e - 52) = x * pow2 (52 - ?e)"
    using pow2_pos [of "?e - 52"] by (simp add: field_simps)
  also have "pow2 (52 - ?e) = pow2 (int k) * pow2 (52 - ?e - int k)"
    by (simp add: pow2_add [symmetric])
  also have "x * (pow2 (int k) * pow2 (52 - ?e - int k)) = (x * 2 ^ k) * pow2 (52 - ?e - int k)"
    by (simp add: pow2_nat)
  finally have "x / pow2 (?e - 52) = (x * 2 ^ k) * pow2 (52 - ?e - int k)" .
  moreover have "pow2 (52 - ?e - int k) \<in> \<int>"
    using e assms(3) by (intro pow2_Ints) simp
  ultimately show "x / pow2 (?e - 52) \<in> \<int>"
    using assms(4) by simp
qed

lemma pow2_values:
  "pow2 1 = 2" "pow2 7 = 128" "pow2 (- 52) = 1 / 4503599627370496"
  "pow2 (- 46) = 1 / 70368744177664"
  by (simp_all add: pow2_def power_int_minus)

lemma tie_is_eighth:
  fixes s n :: nat and K :: int
  assumes "0 < n" "n < 40" "200 * int s + int n = 2 * int n * K"
  shows "\<exists>j :: nat. 8 * s = j * n"
proof -
  have eq: "int n * (2 * K - 1) = 8 * (25 * int s)"
    using assms(3) by (simp add: algebra_simps)
  have "odd (2 * K - 1)" by simp
  then have "coprime (2 ^ 3) (2 * K - 1)"
    by (simp only: coprime_power_left_iff coprime_left_2_iff_odd) simp
  then have c: "coprime 8 (2 * K - 1)" by simp
  have "8 dvd int n * (2 * K - 1)" unfolding eq by simp
  with c have "8 dvd int n" by (simp add: coprime_dvd_mult_left_iff)
  then obtain t where t: "int n = 8 * t" by (auto simp: dvd_def)
  with assms(1,2) have tr: "0 < t" "t < 5" by simp_all
  from eq t have e2: "t * (2 * K - 1) = 25 * int s" by simp
  from tr consider "t = 1" | "t = 2" | "t = 3" | "t = 4" by linarith
  then have "t dvd int s"
  proof cases
    case 1
    then show ?thesis by simp
  next
    case 2
    from e2 have "2 * (2 * K - 1) = 25 * int s" by (simp add: 2)
    then have "2 dvd int s" by presburger
    then show ?thesis by (simp add: 2)
  next
    case 3
    from e2 have "3 * (2 * K - 1) = 25 * int s" by (simp add: 3)
    then have "3 dvd int s" by presburger
    then show ?thesis by (simp add: 3)
  next
    case 4
    from e2 have "4 * (2 * K - 1) = 25 * int s" by (simp add: 4)
    then have "4 dvd int s" by presburger
    then show ?thesis by (simp add: 4)
  qed
  then obtain j where j: "int s = t * j" by (auto simp: dvd_def)
  with tr have "0 \<le> j" by (metis of_nat_0_le_iff zero_le_mult_iff not_less_iff_gr_or_eq linorder_not_le)
  then obtain j' :: nat where j': "j = int j'" using nonneg_int_cases by blast
  have "int (8 * s) = int (j' * n)" using j j' t by simp
  then have "8 * s = j' * n" by (simp only: of_nat_eq_iff)
  then show ?thesis by blast
qed

lemma percentage_small:
  assumes n: "0 < n" "n < 40" and sn: "s \<le> n"
  shows "percentage s n = Some (Math_round (100 * of_nat s / of_nat n))"
proof (cases "s = 0")
  case True
  with n show ?thesis by (simp add: percentage_def to_double_def)
next
  case False
  define x :: rat where "x = of_nat s / of_nat n"
  define v :: rat where "v = 100 * of_nat s / of_nat n"
  define x1 where "x1 = to_double x"
  define y where "y = to_double (x1 * 100)"
  define K where "K = \<lfloor>v + 1 / 2\<rfloor>"
  have vx: "v = x * 100" by (simp add: v_def x_def)
  have p: "percentage s n = Some (Math_round y)"
    using n by (simp add: percentage_def y_def x1_def x_def)
  have npos: "(0::rat) < of_nat n" using n by simp
  have "(1::rat) \<le> of_nat s" using False by simp
  then have "1 / of_nat n \<le> x" unfolding x_def using npos by (simp add: divide_right_mono)
  moreover have "(1::rat) / 40 < 1 / of_nat n"
    using n by (simp add: field_simps)
  ultimately have x_lo: "1 / 40 < x" by simp
  have x_hi: "x \<le> 1" unfolding x_def using sn npos by simp
  have x_pos: "0 < x" using x_lo by simp
  have "\<bar>x1 - x\<bar> \<le> pow2 (0 - 52) / 2"
    unfolding x1_def using x_pos x_hi by (intro to_double_error_bound) (simp_all add: pow2_values)
  then have e1: "\<bar>x1 - x\<bar> \<le> 1 / 9007199254740992" by (simp add: pow2_values)
  have z_pos: "0 < x1 * 100" using e1 x_lo by linarith
  have z_hi: "x1 * 100 < 128" using e1 x_hi by linarith
  have "\<bar>y - x1 * 100\<bar> \<le> pow2 (6 - 52) / 2"
    unfolding y_def using z_pos z_hi by (intro to_double_error_bound) (simp_all add: pow2_values)
  then have e2: "\<bar>y - x1 * 100\<bar> \<le> 1 / 140737488355328" by (simp add: pow2_values)
  have err: "\<bar>y - v\<bar> < 1 / 1000"
    using e1 e2 unfolding vx by linarith
  show ?thesis
  proof (cases "v + 1 / 2 = of_int K")
    case True
    have "200 * of_nat s + of_nat n = 2 * of_nat n * (v + 1 / 2)"
      unfolding v_def using npos by (simp add: field_simps)
    then have "(200 * of_nat s + of_nat n :: rat) = 2 * of_nat n * of_int K"
      by (simp only: True)
    then have "(of_int (200 * int s + int n) :: rat) = of_int (2 * int n * K)"
      by simp
    then have "200 * int s + int n = 2 * int n * K" by (simp only: of_int_eq_iff)
    from tie_is_eighth [OF n this] obtain j :: nat where j: "8 * s = j * n" by blast
    then have "(of_nat (8 * s) :: rat) = of_nat (j * n)" by simp
    then have x8: "x * 2 ^ 3 = of_nat j" unfolding x_def using npos by (simp add: field_simps)
    then have "x * 2 ^ 3 \<in> \<int>" by simp
    with x_pos x_hi have "to_double x = x"
      by (intro to_double_dyadic [of x 0 3]) (simp_all add: pow2_values)
    then have x1: "x1 = x" by (simp add: x1_def)
    have "(x * 100) * 2 ^ 1 = of_nat (25 * j)" using x8 by simp
    then have "(x * 100) * 2 ^ 1 \<in> \<int>" by (simp only: Ints_of_nat)
    with z_pos z_hi have "to_double (x * 100) = x * 100"
      unfolding x1 by (intro to_double_dyadic [of "x * 100" 6 1]) (simp_all add: pow2_values)
    then have "y = v" by (simp add: y_def x1 vx)
    with p show ?thesis by (simp add: v_def)
  next
    case False
    define d :: rat where "d = 2 * of_nat n"
    define N :: rat where "N = 200 * of_nat s + of_nat n"
    have d: "0 < d" using npos by (simp add: d_def)
    have w: "v + 1 / 2 = N / d"
      unfolding v_def d_def N_def using npos by (simp add: field_simps)
    have dI: "d = of_int (2 * int n)" by (simp add: d_def)
    have NI: "N = of_int (200 * int s + int n)" by (simp add: N_def)
    have "of_int K \<le> v + 1 / 2" "v + 1 / 2 < of_int K + 1"
      unfolding K_def by linarith+
    with False have lt: "of_int K < N / d" "N / d < of_int K + 1"
      unfolding w by simp_all
    from lt(1) d have "of_int K * d < N" by (simp add: pos_less_divide_eq)
    then have "(of_int (K * (2 * int n)) :: rat) < of_int (200 * int s + int n)"
      unfolding dI NI by simp
    then have "K * (2 * int n) < 200 * int s + int n" by (simp only: of_int_less_iff)
    then have "K * (2 * int n) + 1 \<le> 200 * int s + int n" by simp
    then have "(of_int (K * (2 * int n) + 1) :: rat) \<le> of_int (200 * int s + int n)"
      by (simp only: of_int_le_iff)
    then have "of_int K * d + 1 \<le> N" unfolding dI NI by simp
    then have "(of_int K * d + 1) / d \<le> N / d"
      using d by (simp add: divide_right_mono)
    moreover have "(of_int K * d + 1) / d = of_int K + 1 / d"
      using d by (simp add: add_divide_distrib)
    ultimately have lo: "of_int K + 1 / d \<le> v + 1 / 2" unfolding w by simp
    from lt(2) d have "N < (of_int K + 1) * d" by (simp add: pos_divide_less_eq)
    then have "(of_int (200 * int s + int n) :: rat) < of_int ((K + 1) * (2 * int n))"
      unfolding dI NI by simp
    then have "200 * int s + int n < (K + 1) * (2 * int n)" by (simp only: of_int_less_iff)
    then have "200 * int s + int n + 1 \<le> (K + 1) * (2 * int n)" by simp
    then have "(of_int (200 * int s + int n + 1) :: rat) \<le> of_int ((K + 1) * (2 * int n))"
      by (simp only: of_int_le_iff)
    then have "N + 1 \<le> (of_int K + 1) * d" unfolding dI NI by simp
    then have "(N + 1) / d \<le> of_int K + 1"
      using d by (simp add: pos_divide_le_eq)
    moreover have "(N + 1) / d = N / d + 1 / d" by (simp add: add_divide_distrib)
    ultimately have hi: "v + 1 / 2 + 1 / d \<le> of_int K + 1" unfolding w by simp
    have "(of_nat n :: rat) < 40" using n by simp
    then have gap: "(1::rat) / 1000 < 1 / d"
      using npos by (simp add: d_def field_simps)
    have "of_int K \<le> y + 1 / 2" "y + 1 / 2 < of_int K + 1"
      using lo hi gap err by linarith+
    then have "\<lfloor>y + 1 / 2\<rfloor> = K" by (simp add: floor_unique)
    with p show ?thesis by (simp add: Math_round_def K_def v_def)
  qed
qed

lemma foldl_count:
  "foldl (\<lambda>acc x. acc + (if P x then 1 else 0)) a xs = a + length (filter P xs)"
  by (induction xs arbitrary: a) simp_all

lemma zip_upt_map: "zip xs [0..<length xs] = map (\<lambda>i. (xs ! i, i)) [0..<length xs]"
  by (rule nth_equalityI) simp_all

lemma score_of_filter:
  "score_of quiz ua =
     length (filter (\<lambda>i. js_index ua (int i) = Some (correctAnswer (quiz ! i))) [0..<length quiz])"
proof -
  let ?P = "\<lambda>(question, index). js_index ua (int index) = Some (correctAnswer question)"
  have "score_of quiz ua = foldl (\<lambda>acc x. acc + (if ?P x then 1 else 0)) 0 (zip quiz [0..<length quiz])"
    unfolding score_of_def by (rule arg_cong [where f = "\<lambda>f. foldl f 0 (zip quiz [0..<length quiz])"]) auto
  also have "\<dots> = length (filter ?P (zip quiz [0..<length quiz]))"
    by (simp add: foldl_count)
  also have "\<dots> = length (filter (\<lambda>i. js_index ua (int i) = Some (correctAnswer (quiz ! i))) [0..<length quiz])"
    by (subst zip_upt_map) (simp add: filter_map comp_def)
  finally show ?thesis .
qed

lemma score_of_card:
  "score_of quiz ua = card {i. i < length quiz \<and> i < length ua \<and> ua ! i = correctAnswer (quiz ! i)}"
proof -
  let ?Q = "\<lambda>i. js_index ua (int i) = Some (correctAnswer (quiz ! i))"
  have "score_of quiz ua = length (filter ?Q [0..<length quiz])" by (rule score_of_filter)
  also have "\<dots> = card (set (filter ?Q [0..<length quiz]))"
    by (rule distinct_card [symmetric]) (rule distinct_filter, rule distinct_upt)
  also have "set (filter ?Q [0..<length quiz])
      = {i. i < length quiz \<and> i < length ua \<and> ua ! i = correctAnswer (quiz ! i)}"
    by (auto simp: js_index_def split: if_splits)
  finally show ?thesis .
qed

lemma score_of_le: "score_of quiz ua \<le> length quiz"
  unfolding score_of_filter by (metis length_filter_le length_upt minus_nat.diff_0)

text \<open>
  Claim C9, as amended. The score is the number of indices at which the user's answer
  is exactly the question's \<open>correctAnswer\<close>. For a quiz of 1 to 39 questions the
  percentage that is displayed, computed on doubles, is \<open>100 * score / questionCount\<close>
  rounded to the nearest integer, a tie going up. For the answers A, B, C and the user's
  answers A, X, C the score is 2 of 3 and the percentage is 67.
\<close>

theorem score_and_percentage:
  "score_of quiz ua = card {i. i < length quiz \<and> i < length ua \<and> ua ! i = correctAnswer (quiz ! i)}
   \<and> (0 < length quiz \<and> length quiz < 40 \<longrightarrow>
        percentage (score_of quiz ua) (length quiz)
          = Some (Math_round (100 * of_nat (score_of quiz ua) / of_nat (length quiz))))"
  using score_of_card [of quiz ua] percentage_small [OF _ _ score_of_le, of quiz ua] by simp

theorem score_and_percentage_witness:
  "score_of abc_quiz [''A'', ''X'', ''C''] = 2 \<and> length abc_quiz = 3
   \<and> percentage (score_of abc_quiz [''A'', ''X'', ''C'']) (length abc_quiz) = Some 67"
proof -
  have l: "length abc_quiz = 3" by (simp add: abc_quiz_def)
  have s: "score_of abc_quiz [''A'', ''X'', ''C''] = 2" by code_simp
  have m: "Math_round (100 * of_nat 2 / of_nat 3) = 67" by code_simp
  from score_and_percentage [of abc_quiz "[''A'', ''X'', ''C'']"] show ?thesis
    unfolding l s m by simp
qed

text \<open>
  Claim C9, as stated for every quiz, fails at 40 questions with 23 right answers:
  \<open>23 / 40\<close> is not a double, the product \<^verbatim>\<open>(23 / 40) * 100\<close> is the double
  \<^verbatim>\<open>57.49999999999999\<close> and the percentage is 57, while \<open>100 * 23 / 40 = 57.5\<close> rounds
  to 58.
\<close>

theorem percentage_forty_questions:
  "length (replicate 40 yes_no) = 40
   \<and> score_of (replicate 40 yes_no) (replicate 23 ''Yes'' @ replicate 17 ''No'') = 23
   \<and> percentage (score_of (replicate 40 yes_no) (replicate 23 ''Yes'' @ replicate 17 ''No''))
        (length (replicate 40 yes_no)) = Some 57
   \<and> Math_round (100 * of_nat 23 / of_nat 40) = 58"
  by code_simp

end
